theory Spec2Isabelle
  imports Main "HOL-Library.Word"
begin

section \<open>The subscription registry of \<^verbatim>\<open>server/inotify-helper.c\<close>\<close>

text \<open>
  The unit keeps four file-level variables (\<^verbatim>\<open>sub_list\<close>, \<^verbatim>\<open>initialized\<close>,
  \<^verbatim>\<open>user_ecb\<close>, \<^verbatim>\<open>user_fcb\<close>) and one function-level static (\<^verbatim>\<open>result\<close> of
  \<^verbatim>\<open>ih_startup\<close>). Subscriptions are heap objects handed in by pointer, so the model
  has an explicit store from addresses to subscription structs. Every public function
  body runs between \<^verbatim>\<open>G_LOCK\<close> and \<^verbatim>\<open>G_UNLOCK\<close> of the one shared lock, and the two
  adapters are entered with that lock held: each function of the model is therefore one
  atomic transformation of the state. The debugging macro \<^verbatim>\<open>IH_W\<close> prints only when
  \<^verbatim>\<open>ih_debug_enabled\<close> is set, which this unit never does; it is left out.
\<close>

subsection \<open>Data\<close>

type_synonym sub_ptr = nat
type_synonym fn_ptr = nat
type_synonym user_data = nat

text \<open>
  The fields of \<^verbatim>\<open>ih_sub_t\<close> this unit reads or writes. \<^verbatim>\<open>filename\<close> is a C string
  that may be \<^verbatim>\<open>NULL\<close>.
\<close>

record ih_sub_t =
  pathname :: string
  dirname :: string
  filename :: "string option"
  usersubdata :: user_data
  cancelled :: bool

text \<open>The fields of \<^verbatim>\<open>ik_event_t\<close> the event adapter reads; \<^verbatim>\<open>name\<close> may be \<^verbatim>\<open>NULL\<close>.\<close>

record ik_event_t =
  event_name :: "string option"
  event_mask :: "32 word"

datatype error = Assertion_failed | Invalid_pointer | Null_call

text \<open>
  The effects of the unit, in the order they happen: every call that leaves the unit and
  every write to a subscription's \<^verbatim>\<open>cancelled\<close> flag or to \<^verbatim>\<open>sub_list\<close>. The first
  component of \<open>Call_user_ecb\<close> and \<open>Call_user_fcb\<close> names the subscription on whose
  behalf the adapter makes the call; the C callback itself receives only the remaining
  components.
\<close>

datatype effect =
    Call_ip_startup
  | Call_g_warning
  | Call_im_startup
  | Call_id_startup
  | Call_ip_start_watching sub_ptr
  | Call_im_add sub_ptr
  | Call_im_rm sub_ptr
  | Call_ip_stop_watching sub_ptr
  | Call_ih_sub_free sub_ptr
  | Call_f sub_ptr
  | Call_user_ecb sub_ptr fn_ptr string "32 word" user_data
  | Call_user_fcb sub_ptr fn_ptr string user_data
  | Write_cancelled sub_ptr
  | Write_sub_list_prepend sub_ptr
  | Write_sub_list_remove sub_ptr

text \<open>
  The state: the store of subscriptions, the unit's own variables, the two collaborators'
  tracking sets, and the effects so far. \<open>watched\<close> is what the Watch Backend tracks and
  \<open>missing\<close> what the Missing-Path Scanner tracks.
\<close>

record ih_state =
  heap :: "sub_ptr \<Rightarrow> ih_sub_t option"
  sub_list :: "sub_ptr list"
  initialized :: bool
  result :: bool
  user_ecb :: "fn_ptr option"
  user_fcb :: "fn_ptr option"
  watched :: "sub_ptr set"
  missing :: "sub_ptr set"
  trace :: "effect list"

text \<open>
  What the outside world answers during one call: whether the inotify device can be
  opened, whether a watch can be placed on a directory, and whether a path exists
  (\<^verbatim>\<open>g_file_test (fullpath, G_FILE_TEST_EXISTS)\<close>).
\<close>

record world =
  ip_startup_ok :: bool
  can_watch :: "string \<Rightarrow> bool"
  file_exists :: "string \<Rightarrow> bool"

definition init_state :: "(sub_ptr \<Rightarrow> ih_sub_t option) \<Rightarrow> ih_state" where
  "init_state h =
     \<lparr>heap = h, sub_list = [], initialized = False, result = False,
      user_ecb = None, user_fcb = None, watched = {}, missing = {}, trace = []\<rparr>"

definition emit :: "effect \<Rightarrow> ih_state \<Rightarrow> ih_state" where
  "emit e s = s\<lparr>trace := trace s @ [e]\<rparr>"

subsection \<open>The collaborators\<close>

text \<open>
  Modelled from the spec: \<^verbatim>\<open>ip_start_watching\<close> of the Watch Backend (its source is not
  part of this unit). Given a subscription it attempts to establish a live kernel watch
  on its path and reports whether it did; on success the backend tracks the
  subscription. It reads the subscription, so a dangling pointer is an error. The spec
  gives it no other precondition; in particular it is not said to look at the
  \<^verbatim>\<open>cancelled\<close> flag.
\<close>

definition ip_start_watching :: "world \<Rightarrow> sub_ptr \<Rightarrow> ih_state \<Rightarrow> error + (bool \<times> ih_state)" where
  "ip_start_watching w p s =
     (case heap s p of
        None \<Rightarrow> Inl Invalid_pointer
      | Some sub \<Rightarrow>
          let s1 = emit (Call_ip_start_watching p) s in
          if can_watch w (dirname sub)
          then Inr (True, s1\<lparr>watched := insert p (watched s1)\<rparr>)
          else Inr (False, s1))"

text \<open>
  Modelled from the spec: \<^verbatim>\<open>ip_stop_watching\<close> of the Watch Backend. It stops watching
  the subscription, and does nothing if the subscription is not watched there.
\<close>

definition ip_stop_watching :: "sub_ptr \<Rightarrow> ih_state \<Rightarrow> ih_state" where
  "ip_stop_watching p s = (emit (Call_ip_stop_watching p) s)\<lparr>watched := watched s - {p}\<rparr>"

text \<open>
  Modelled from the spec: \<^verbatim>\<open>im_add\<close> of the Missing-Path Scanner. It hands a
  subscription to the scanner, which tracks it from then on.
\<close>

definition im_add :: "sub_ptr \<Rightarrow> ih_state \<Rightarrow> ih_state" where
  "im_add p s = (emit (Call_im_add p) s)\<lparr>missing := insert p (missing s)\<rparr>"

text \<open>
  Modelled from the spec: \<^verbatim>\<open>im_rm\<close> of the Missing-Path Scanner. It removes a
  subscription from the scanner's tracking, and does nothing if it is not tracked there.
\<close>

definition im_rm :: "sub_ptr \<Rightarrow> ih_state \<Rightarrow> ih_state" where
  "im_rm p s = (emit (Call_im_rm p) s)\<lparr>missing := missing s - {p}\<rparr>"

text \<open>
  Modelled from the spec: \<^verbatim>\<open>ih_sub_free\<close> releases the memory of a subscription.
\<close>

definition ih_sub_free :: "sub_ptr \<Rightarrow> ih_state \<Rightarrow> ih_state" where
  "ih_sub_free p s = (emit (Call_ih_sub_free p) s)\<lparr>heap := (heap s)(p := None)\<rparr>"

subsection \<open>The functions of the unit\<close>

text \<open>
  \<^verbatim>\<open>ih_startup\<close>. The static \<^verbatim>\<open>result\<close> is assigned before it is tested, so a failed
  attempt leaves \<^verbatim>\<open>result = FALSE\<close> and \<^verbatim>\<open>initialized = FALSE\<close>.
\<close>

definition ih_startup :: "world \<Rightarrow> fn_ptr option \<Rightarrow> fn_ptr option \<Rightarrow> ih_state \<Rightarrow> bool \<times> ih_state" where
  "ih_startup w ecb fcb s =
     (if initialized s then (result s, s)
      else
        let s1 = (emit Call_ip_startup s)\<lparr>result := ip_startup_ok w\<rparr> in
        if \<not> result s1 then (False, emit Call_g_warning s1)
        else
          let s2 = s1\<lparr>initialized := True, user_ecb := ecb, user_fcb := fcb\<rparr> in
          (True, emit Call_id_startup (emit Call_im_startup s2)))"

definition ih_running :: "ih_state \<Rightarrow> bool" where
  "ih_running s = initialized s"

text \<open>\<^verbatim>\<open>g_list_prepend\<close> and \<^verbatim>\<open>g_list_remove\<close> (the first node holding the pointer) on \<^verbatim>\<open>sub_list\<close>.\<close>

definition sub_list_prepend :: "sub_ptr \<Rightarrow> ih_state \<Rightarrow> ih_state" where
  "sub_list_prepend p s = (emit (Write_sub_list_prepend p) s)\<lparr>sub_list := p # sub_list s\<rparr>"

definition sub_list_remove :: "sub_ptr \<Rightarrow> ih_state \<Rightarrow> ih_state" where
  "sub_list_remove p s = (emit (Write_sub_list_remove p) s)\<lparr>sub_list := remove1 p (sub_list s)\<rparr>"

text \<open>\<^verbatim>\<open>ih_sub_add\<close>: the assertion, the attempt to watch, the fallback, the prepend.\<close>

definition ih_sub_add :: "world \<Rightarrow> ih_state \<Rightarrow> sub_ptr \<Rightarrow> error + (bool \<times> ih_state)" where
  "ih_sub_add w s p =
     (if p \<in> set (sub_list s) then Inl Assertion_failed
      else
        case ip_start_watching w p s of
          Inl e \<Rightarrow> Inl e
        | Inr (ok, s1) \<Rightarrow>
            let s2 = (if \<not> ok then im_add p s1 else s1) in
            Inr (True, sub_list_prepend p s2))"

text \<open>The write \<^verbatim>\<open>sub->cancelled = TRUE\<close>.\<close>

definition write_cancelled :: "sub_ptr \<Rightarrow> ih_sub_t \<Rightarrow> ih_state \<Rightarrow> ih_state" where
  "write_cancelled p sub s =
     (emit (Write_cancelled p) s)\<lparr>heap := (heap s)(p \<mapsto> sub\<lparr>cancelled := True\<rparr>)\<rparr>"

text \<open>\<^verbatim>\<open>ih_sub_cancel\<close>. It reads \<^verbatim>\<open>sub->cancelled\<close> first, so the pointer must be live.\<close>

definition ih_sub_cancel :: "ih_state \<Rightarrow> sub_ptr \<Rightarrow> error + (bool \<times> ih_state)" where
  "ih_sub_cancel s p =
     (case heap s p of
        None \<Rightarrow> Inl Invalid_pointer
      | Some sub \<Rightarrow>
          if \<not> cancelled sub then
            if p \<notin> set (sub_list s) then Inl Assertion_failed
            else
              let s1 = write_cancelled p sub s;
                  s2 = im_rm p s1;
                  s3 = ip_stop_watching p s2
              in Inr (True, sub_list_remove p s3)
          else Inr (True, s))"

text \<open>
  The loop of \<^verbatim>\<open>ih_sub_foreach_worker\<close>. The C loop holds the current node \<^verbatim>\<open>l\<close> and
  reads \<^verbatim>\<open>l->next\<close> before it calls the predicate. \<^verbatim>\<open>ih_sub_cancel\<close> unlinks the first
  node that holds \<^verbatim>\<open>sub\<close>, which is the current node or one before it, never one after
  it: the chain from \<^verbatim>\<open>next\<close> on is the same before and after the body. The loop is
  therefore a recursion over that chain, given as the list of pointers its nodes hold,
  while the state (and in it \<^verbatim>\<open>sub_list\<close>) changes underneath. The predicate receives
  the pointer, what it points to, and the caller's data.
\<close>

fun foreach_loop ::
  "(sub_ptr \<Rightarrow> ih_sub_t \<Rightarrow> user_data \<Rightarrow> bool) \<Rightarrow> user_data \<Rightarrow> bool \<Rightarrow> sub_ptr list \<Rightarrow> ih_state
     \<Rightarrow> error + ih_state" where
  "foreach_loop f callerdata free [] s = Inr s"
| "foreach_loop f callerdata free (p # next) s =
     (case heap s p of
        None \<Rightarrow> Inl Invalid_pointer
      | Some sub \<Rightarrow>
          let s1 = emit (Call_f p) s in
          if f p sub callerdata then
            (case ih_sub_cancel s1 p of
               Inl e \<Rightarrow> Inl e
             | Inr (_, s2) \<Rightarrow>
                 foreach_loop f callerdata free next (if free then ih_sub_free p s2 else s2))
          else foreach_loop f callerdata free next s1)"

definition ih_sub_foreach_worker ::
  "user_data \<Rightarrow> (sub_ptr \<Rightarrow> ih_sub_t \<Rightarrow> user_data \<Rightarrow> bool) \<Rightarrow> bool \<Rightarrow> ih_state \<Rightarrow> error + ih_state" where
  "ih_sub_foreach_worker callerdata f free s = foreach_loop f callerdata free (sub_list s) s"

definition ih_sub_foreach ::
  "user_data \<Rightarrow> (sub_ptr \<Rightarrow> ih_sub_t \<Rightarrow> user_data \<Rightarrow> bool) \<Rightarrow> ih_state \<Rightarrow> error + ih_state" where
  "ih_sub_foreach callerdata f s = ih_sub_foreach_worker callerdata f False s"

definition ih_sub_foreach_free ::
  "user_data \<Rightarrow> (sub_ptr \<Rightarrow> ih_sub_t \<Rightarrow> user_data \<Rightarrow> bool) \<Rightarrow> ih_state \<Rightarrow> error + ih_state" where
  "ih_sub_foreach_free callerdata f s = ih_sub_foreach_worker callerdata f True s"

text \<open>
  \<^verbatim>\<open>ih_event_callback\<close>: \<^verbatim>\<open>g_strdup_printf ("%s/%s", ...)\<close> or \<^verbatim>\<open>("%s/", ...)\<close>, then
  the call through \<^verbatim>\<open>user_ecb\<close>, which fails if that pointer is \<^verbatim>\<open>NULL\<close>.
\<close>

definition ih_event_callback :: "ih_state \<Rightarrow> ik_event_t \<Rightarrow> sub_ptr \<Rightarrow> error + ih_state" where
  "ih_event_callback s event p =
     (case heap s p of
        None \<Rightarrow> Inl Invalid_pointer
      | Some sub \<Rightarrow>
          let fullpath =
                (case event_name event of
                   Some n \<Rightarrow> dirname sub @ ''/'' @ n
                 | None \<Rightarrow> dirname sub @ ''/'')
          in case user_ecb s of
               None \<Rightarrow> Inl Null_call
             | Some cb \<Rightarrow>
                 Inr (emit (Call_user_ecb p cb fullpath (event_mask event) (usersubdata sub)) s))"

text \<open>
  \<^verbatim>\<open>ih_found_callback\<close>: with a filename the path is tested first and the function
  returns early when it does not exist; the call through \<^verbatim>\<open>user_fcb\<close> comes last.
\<close>

definition ih_found_callback :: "world \<Rightarrow> ih_state \<Rightarrow> sub_ptr \<Rightarrow> error + ih_state" where
  "ih_found_callback w s p =
     (case heap s p of
        None \<Rightarrow> Inl Invalid_pointer
      | Some sub \<Rightarrow>
          let call = (\<lambda>fullpath.
                case user_fcb s of
                  None \<Rightarrow> Inl Null_call
                | Some cb \<Rightarrow> Inr (emit (Call_user_fcb p cb fullpath (usersubdata sub)) s))
          in case filename sub of
               Some fn \<Rightarrow>
                 let fullpath = dirname sub @ ''/'' @ fn in
                 if \<not> file_exists w fullpath then Inr s else call fullpath
             | None \<Rightarrow> call (dirname sub @ ''/''))"

subsection \<open>Lifecycle states\<close>

text \<open>
  The unit has no state field: a subscription is \<open>Cancelled\<close> when its flag is set,
  otherwise \<open>Watching\<close> or \<open>Missing\<close> according to the collaborator that tracks it, and
  \<open>Unregistered\<close> when neither does (a subscription its creator has not yet added).
\<close>

datatype lifecycle = Unregistered | Watching | Missing | Cancelled

definition sub_state :: "ih_state \<Rightarrow> sub_ptr \<Rightarrow> lifecycle option" where
  "sub_state s p =
     (case heap s p of
        None \<Rightarrow> None
      | Some sub \<Rightarrow>
          Some (if cancelled sub then Cancelled
                else if p \<in> watched s then Watching
                else if p \<in> missing s then Missing
                else Unregistered))"

text \<open>
  The registry is consistent when \<^verbatim>\<open>sub_list\<close> holds no pointer twice, every
  subscription in it is live, not cancelled and tracked by one of the collaborators, and
  the collaborators track nothing outside it.
\<close>

definition reg_inv :: "ih_state \<Rightarrow> bool" where
  "reg_inv s \<longleftrightarrow>
     distinct (sub_list s) \<and>
     (\<forall>p\<in>set (sub_list s). sub_state s p = Some Watching \<or> sub_state s p = Some Missing) \<and>
     watched s \<union> missing s \<subseteq> set (sub_list s)"

text \<open>The weaker condition the traversal needs: no pointer twice, every pointer live.\<close>

definition live_list :: "ih_state \<Rightarrow> bool" where
  "live_list s \<longleftrightarrow> distinct (sub_list s) \<and> (\<forall>p\<in>set (sub_list s). heap s p \<noteq> None)"

subsection \<open>What a traversal does, in closed form\<close>

text \<open>
  \<open>selected\<close>: the predicate answers true for the subscription at \<open>p\<close>;
  \<open>cancels\<close>: it does, and the subscription is not yet cancelled, so \<^verbatim>\<open>ih_sub_cancel\<close>
  acts. \<open>visit_effects\<close> lists the effects of one round of the loop and
  \<open>foreach_outcome\<close> is the state after the rounds for the pointers \<open>ps\<close>.
\<close>

definition selected ::
  "(sub_ptr \<Rightarrow> ih_sub_t \<Rightarrow> user_data \<Rightarrow> bool) \<Rightarrow> user_data \<Rightarrow> ih_state \<Rightarrow> sub_ptr \<Rightarrow> bool" where
  "selected f callerdata s p = (case heap s p of None \<Rightarrow> False | Some sub \<Rightarrow> f p sub callerdata)"

definition cancels ::
  "(sub_ptr \<Rightarrow> ih_sub_t \<Rightarrow> user_data \<Rightarrow> bool) \<Rightarrow> user_data \<Rightarrow> ih_state \<Rightarrow> sub_ptr \<Rightarrow> bool" where
  "cancels f callerdata s p =
     (case heap s p of None \<Rightarrow> False | Some sub \<Rightarrow> f p sub callerdata \<and> \<not> cancelled sub)"

definition visit_effects ::
  "(sub_ptr \<Rightarrow> ih_sub_t \<Rightarrow> user_data \<Rightarrow> bool) \<Rightarrow> user_data \<Rightarrow> bool \<Rightarrow> ih_state \<Rightarrow> sub_ptr
     \<Rightarrow> effect list" where
  "visit_effects f callerdata free s p =
     Call_f p #
     (if selected f callerdata s p
      then (if cancels f callerdata s p
            then [Write_cancelled p, Call_im_rm p, Call_ip_stop_watching p, Write_sub_list_remove p]
            else []) @
           (if free then [Call_ih_sub_free p] else [])
      else [])"

definition foreach_outcome ::
  "(sub_ptr \<Rightarrow> ih_sub_t \<Rightarrow> user_data \<Rightarrow> bool) \<Rightarrow> user_data \<Rightarrow> bool \<Rightarrow> sub_ptr list \<Rightarrow> ih_state
     \<Rightarrow> ih_state" where
  "foreach_outcome f callerdata free ps s =
     s\<lparr>heap := (\<lambda>p. if p \<in> set ps \<and> selected f callerdata s p
                     then (if free then None
                           else map_option (\<lambda>sub. sub\<lparr>cancelled := True\<rparr>) (heap s p))
                     else heap s p),
       sub_list := filter (\<lambda>p. \<not> (p \<in> set ps \<and> cancels f callerdata s p)) (sub_list s),
       watched := watched s - {p \<in> set ps. cancels f callerdata s p},
       missing := missing s - {p \<in> set ps. cancels f callerdata s p},
       trace := trace s @ concat (map (visit_effects f callerdata free s) ps)\<rparr>"

subsection \<open>The collaborators' own steps\<close>

text \<open>
  Modelled from the spec: one rescan by the Missing-Path Scanner of a subscription it
  tracks. The scanner asks the Watch Backend to start watching; when that succeeds the
  subscription is promoted (backend tracking begins, scanner tracking ends) and the
  scanner invokes the found callback it was given at startup, \<^verbatim>\<open>ih_found_callback\<close>.
\<close>

definition im_scan :: "world \<Rightarrow> sub_ptr \<Rightarrow> ih_state \<Rightarrow> error + ih_state" where
  "im_scan w p s =
     (case ip_start_watching w p s of
        Inl e \<Rightarrow> Inl e
      | Inr (ok, s1) \<Rightarrow>
          if ok then ih_found_callback w (s1\<lparr>missing := missing s1 - {p}\<rparr>) p else Inr s1)"

text \<open>
  Modelled from the spec: when the collaborators call back into the unit. The Watch
  Backend reports events, through \<^verbatim>\<open>ih_event_callback\<close>, for subscriptions it watches;
  the scanner rescans subscriptions it tracks. Together with the four public functions
  these are the steps of the whole system, one per acquisition of the shared lock. The
  lifecycle of the spec's data model is part of it: once cancelled, a subscription is
  never re-inserted, so \<^verbatim>\<open>ih_sub_add\<close> is handed only subscriptions that are not
  cancelled (the unit itself does not look at the flag there).
\<close>

inductive step :: "ih_state \<Rightarrow> ih_state \<Rightarrow> bool" where
  startup: "ih_startup w ecb fcb s = (b, s') \<Longrightarrow> step s s'"
| add: "sub_state s p \<noteq> Some Cancelled \<Longrightarrow> ih_sub_add w s p = Inr (b, s') \<Longrightarrow> step s s'"
| foreach: "ih_sub_foreach callerdata f s = Inr s' \<Longrightarrow> step s s'"
| foreach_free: "ih_sub_foreach_free callerdata f s = Inr s' \<Longrightarrow> step s s'"
| event: "p \<in> watched s \<Longrightarrow> ih_event_callback s ev p = Inr s' \<Longrightarrow> step s s'"
| scan: "p \<in> missing s \<Longrightarrow> im_scan w p s = Inr s' \<Longrightarrow> step s s'"

text \<open>
  A trace keeps the promise "no user callback after cancellation" when no
  \<open>Write_cancelled p\<close> in it is followed by a user callback made for \<open>p\<close>.
\<close>

fun user_cb_for :: "sub_ptr \<Rightarrow> effect \<Rightarrow> bool" where
  "user_cb_for p (Call_user_ecb q cb path m d) = (q = p)"
| "user_cb_for p (Call_user_fcb q cb path d) = (q = p)"
| "user_cb_for p _ = False"

fun no_callback_after_cancel :: "effect list \<Rightarrow> bool" where
  "no_callback_after_cancel [] = True"
| "no_callback_after_cancel (Write_cancelled p # es) =
     (\<not> list_ex (user_cb_for p) es \<and> no_callback_after_cancel es)"
| "no_callback_after_cancel (e # es) = no_callback_after_cancel es"

subsection \<open>The invariant behind the callback promise\<close>

text \<open>
  \<open>gone\<close>: the subscription at \<open>p\<close> is released or has its flag set. \<open>cb_inv\<close>: the
  registry is consistent, the trace keeps the promise, and every subscription whose
  cancellation is in the trace is gone.
\<close>

definition gone :: "ih_state \<Rightarrow> sub_ptr \<Rightarrow> bool" where
  "gone s p = (case heap s p of None \<Rightarrow> True | Some sub \<Rightarrow> cancelled sub)"

definition cb_inv :: "ih_state \<Rightarrow> bool" where
  "cb_inv s \<longleftrightarrow>
     reg_inv s \<and> no_callback_after_cancel (trace s) \<and>
     (\<forall>p. Write_cancelled p \<in> set (trace s) \<longrightarrow> gone s p)"

subsection \<open>A concrete run\<close>

text \<open>
  A world in which only the directory \<^verbatim>\<open>/a\<close> can be watched and only \<^verbatim>\<open>/a/f\<close> exists,
  three subscriptions at the addresses 1, 2 and 3, and the states of one run: startup,
  add of the first subscription, a traversal whose predicate selects everything.
\<close>

definition ex_world :: world where
  "ex_world = \<lparr>ip_startup_ok = True, can_watch = (\<lambda>d. d = ''/a''), file_exists = (\<lambda>x. x = ''/a/f'')\<rparr>"

definition ex_file_sub :: ih_sub_t where
  "ex_file_sub =
     \<lparr>pathname = ''/a/f'', dirname = ''/a'', filename = Some ''f'', usersubdata = 7, cancelled = False\<rparr>"

definition ex_dir_sub :: ih_sub_t where
  "ex_dir_sub =
     \<lparr>pathname = ''/b'', dirname = ''/b'', filename = None, usersubdata = 8, cancelled = False\<rparr>"

definition ex_gone_sub :: ih_sub_t where
  "ex_gone_sub =
     \<lparr>pathname = ''/a/g'', dirname = ''/a'', filename = Some ''g'', usersubdata = 9, cancelled = False\<rparr>"

definition ex_heap :: "sub_ptr \<Rightarrow> ih_sub_t option" where
  "ex_heap = [1 \<mapsto> ex_file_sub, 2 \<mapsto> ex_dir_sub, 3 \<mapsto> ex_gone_sub]"

definition ex_event :: ik_event_t where
  "ex_event = \<lparr>event_name = Some ''x'', event_mask = 2\<rparr>"

definition select_all :: "sub_ptr \<Rightarrow> ih_sub_t \<Rightarrow> user_data \<Rightarrow> bool" where
  "select_all p sub callerdata = True"

definition run1 :: ih_state where
  "run1 =
     \<lparr>heap = ex_heap, sub_list = [], initialized = True, result = True,
      user_ecb = Some 100, user_fcb = Some 200, watched = {}, missing = {},
      trace = [Call_ip_startup, Call_im_startup, Call_id_startup]\<rparr>"

definition run2 :: ih_state where
  "run2 =
     run1\<lparr>sub_list := [1], watched := {1},
          trace := trace run1 @ [Call_ip_start_watching 1, Write_sub_list_prepend 1]\<rparr>"

definition run3 :: ih_state where
  "run3 =
     run2\<lparr>heap := ex_heap(1 \<mapsto> ex_file_sub\<lparr>cancelled := True\<rparr>), sub_list := [], watched := {},
          trace := trace run2 @
            [Call_f 1, Write_cancelled 1, Call_im_rm 1, Call_ip_stop_watching 1,
             Write_sub_list_remove 1]\<rparr>"

text \<open>
  Variations of the run: the first subscription cancelled directly in \<open>run2\<close>; the
  traversal of \<open>run2\<close> that also releases; both subscriptions added; an event delivered
  in \<open>run2\<close> and the traversal after it. \<open>by_user_data\<close> is a predicate that selects the
  subscriptions of one user. In \<open>ex_world_bare\<close> nothing can be watched; \<open>parked\<close> is
  the state after the third subscription (file \<^verbatim>\<open>/a/g\<close>, which does not exist) is added
  there, and \<open>promoted\<close> the state after the scanner rescans it in \<open>ex_world\<close>.
\<close>

definition run2_cancelled :: ih_state where
  "run2_cancelled =
     run2\<lparr>heap := ex_heap(1 \<mapsto> ex_file_sub\<lparr>cancelled := True\<rparr>), sub_list := [], watched := {},
          trace := trace run2 @
            [Write_cancelled 1, Call_im_rm 1, Call_ip_stop_watching 1, Write_sub_list_remove 1]\<rparr>"

definition run3_freed :: ih_state where
  "run3_freed = run3\<lparr>heap := ex_heap(1 := None), trace := trace run3 @ [Call_ih_sub_free 1]\<rparr>"

definition by_user_data :: "sub_ptr \<Rightarrow> ih_sub_t \<Rightarrow> user_data \<Rightarrow> bool" where
  "by_user_data p sub callerdata = (usersubdata sub = callerdata)"

definition both :: ih_state where
  "both =
     run2\<lparr>sub_list := [2, 1], missing := {2},
          trace := trace run2 @
            [Call_ip_start_watching 2, Call_im_add 2, Write_sub_list_prepend 2]\<rparr>"

definition seen :: ih_state where
  "seen = run2\<lparr>trace := trace run2 @ [Call_user_ecb 1 100 ''/a/x'' 2 7]\<rparr>"

definition seen_done :: ih_state where
  "seen_done =
     seen\<lparr>heap := ex_heap(1 \<mapsto> ex_file_sub\<lparr>cancelled := True\<rparr>), sub_list := [], watched := {},
          trace := trace seen @
            [Call_f 1, Write_cancelled 1, Call_im_rm 1, Call_ip_stop_watching 1,
             Write_sub_list_remove 1]\<rparr>"

definition ex_world_bare :: world where
  "ex_world_bare =
     \<lparr>ip_startup_ok = True, can_watch = (\<lambda>d. False), file_exists = (\<lambda>x. False)\<rparr>"

definition parked :: ih_state where
  "parked =
     run1\<lparr>sub_list := [3], missing := {3},
          trace := trace run1 @
            [Call_ip_start_watching 3, Call_im_add 3, Write_sub_list_prepend 3]\<rparr>"

definition promoted :: ih_state where
  "promoted =
     parked\<lparr>watched := {3}, missing := {}, trace := trace parked @ [Call_ip_start_watching 3]\<rparr>"

section \<open>Basic facts\<close>

lemmas unit_defs =
  ih_sub_cancel_def write_cancelled_def im_rm_def ip_stop_watching_def sub_list_remove_def
  sub_list_prepend_def im_add_def ip_start_watching_def ih_sub_add_def emit_def ih_sub_free_def

lemmas ex_defs =
  ex_world_def ex_file_sub_def ex_dir_sub_def ex_gone_sub_def ex_heap_def ex_event_def
  select_all_def init_state_def run1_def run2_def run3_def
  ex_world_bare_def parked_def promoted_def
  run2_cancelled_def run3_freed_def by_user_data_def both_def seen_def seen_done_def

lemma emit_fields [simp]:
  "heap (emit e s) = heap s"
  "sub_list (emit e s) = sub_list s"
  "watched (emit e s) = watched s"
  "missing (emit e s) = missing s"
  "trace (emit e s) = trace s @ [e]"
  "initialized (emit e s) = initialized s"
  "result (emit e s) = result s"
  "user_ecb (emit e s) = user_ecb s"
  "user_fcb (emit e s) = user_fcb s"
  by (simp_all add: emit_def)

lemma add_result:
  assumes "heap s p = Some sub" and "p \<notin> set (sub_list s)"
  shows "ih_sub_add w s p =
     Inr (True,
       if can_watch w (dirname sub)
       then s\<lparr>watched := insert p (watched s),
              sub_list := p # sub_list s,
              trace := trace s @ [Call_ip_start_watching p, Write_sub_list_prepend p]\<rparr>
       else s\<lparr>missing := insert p (missing s),
              sub_list := p # sub_list s,
              trace := trace s @
                [Call_ip_start_watching p, Call_im_add p, Write_sub_list_prepend p]\<rparr>)"
  using assms by (simp add: unit_defs)

lemma cancel_result:
  assumes "heap s p = Some sub" and "\<not> cancelled sub"
  shows "ih_sub_cancel s p =
     (if p \<in> set (sub_list s)
      then Inr (True,
             s\<lparr>heap := (heap s)(p \<mapsto> sub\<lparr>cancelled := True\<rparr>),
               missing := missing s - {p},
               watched := watched s - {p},
               sub_list := remove1 p (sub_list s),
               trace := trace s @
                 [Write_cancelled p, Call_im_rm p, Call_ip_stop_watching p,
                  Write_sub_list_remove p]\<rparr>)
      else Inl Assertion_failed)"
  using assms by (simp add: unit_defs)

lemma add_live:
  "ih_sub_add w s p = Inr (b, s') \<Longrightarrow> p \<notin> set (sub_list s) \<and> (\<exists>sub. heap s p = Some sub)"
  by (cases "heap s p") (auto simp: ih_sub_add_def ip_start_watching_def split: if_splits)

lemma event_result:
  assumes "heap s p = Some sub" and "user_ecb s = Some cb"
  shows "ih_event_callback s ev p =
     Inr (s\<lparr>trace := trace s @
       [Call_user_ecb p cb
          (case event_name ev of Some n \<Rightarrow> dirname sub @ ''/'' @ n | None \<Rightarrow> dirname sub @ ''/'')
          (event_mask ev) (usersubdata sub)]\<rparr>)"
  using assms by (simp add: ih_event_callback_def emit_def)

text \<open>The steps of the concrete run.\<close>

lemma run_startup: "ih_startup ex_world (Some 100) (Some 200) (init_state ex_heap) = (True, run1)"
  by (simp add: ih_startup_def emit_def ex_defs)

lemma run_add: "ih_sub_add ex_world run1 1 = Inr (True, run2)"
  by (simp add: unit_defs ex_defs)


lemma run_seen: "ih_event_callback run2 ex_event 1 = Inr seen"
  by (simp add: ih_event_callback_def emit_def ex_defs)

lemma run_seen_done: "ih_sub_foreach 0 select_all seen = Inr seen_done"
  by (simp add: ih_sub_foreach_def ih_sub_foreach_worker_def unit_defs ex_defs)



lemma run_park: "ih_sub_add ex_world_bare run1 3 = Inr (True, parked)"
  by (simp add: unit_defs ex_defs)

lemma run_found: "ih_found_callback ex_world promoted 3 = Inr promoted"
  by (simp add: ih_found_callback_def ex_defs)

lemma run_promote: "im_scan ex_world 3 parked = Inr promoted"
proof -
  have "ip_start_watching ex_world 3 parked = Inr (True, promoted\<lparr>missing := {3}\<rparr>)"
    by (simp add: ip_start_watching_def emit_def ex_defs)
  moreover have "promoted\<lparr>missing := {3}, missing := {3} - {3}\<rparr> = promoted"
    by (simp add: ex_defs)
  ultimately show ?thesis
    using run_found by (simp add: im_scan_def)
qed

section \<open>Startup\<close>

text \<open>
  C6. A call of startup on an initialized registry returns the recorded result and
  leaves the whole state as it was: no effect is added, no collaborator is initialized
  again, no callback is overwritten. So the second of two calls, whatever its arguments
  and whatever the world answers, returns what the first returned and changes nothing,
  provided the first left the registry initialized.
\<close>

theorem ih_startup_idempotent:
  "(initialized s \<longrightarrow> ih_startup w ecb fcb s = (result s, s)) \<and>
   (ih_startup w ecb fcb s = (r, s1) \<and> initialized s1 \<longrightarrow>
      ih_startup w' ecb' fcb' s1 = (r, s1))"
proof (intro conjI impI)
  show "ih_startup w ecb fcb s = (result s, s)" if "initialized s"
    using that by (simp add: ih_startup_def)
  show "ih_startup w' ecb' fcb' s1 = (r, s1)"
    if both: "ih_startup w ecb fcb s = (r, s1) \<and> initialized s1"
  proof (cases "initialized s")
    case True
    with both have "r = result s" and "s1 = s"
      by (auto simp: ih_startup_def)
    with True show ?thesis
      by (simp add: ih_startup_def)
  next
    case False
    show ?thesis
    proof (cases "ip_startup_ok w")
      case True
      with False both have "r = True" and "result s1 = True"
        by (auto simp: ih_startup_def emit_def Let_def)
      with both show ?thesis
        by (simp add: ih_startup_def)
    next
      case no: False
      with False both have "\<not> initialized s1"
        by (auto simp: ih_startup_def emit_def Let_def)
      with both show ?thesis
        by simp
    qed
  qed
qed

theorem ih_startup_idempotent_witness:
  "ih_startup ex_world (Some 100) (Some 200) (init_state ex_heap) = (True, run1) \<and>
   initialized run1 \<and> result run1 \<and>
   ih_startup (ex_world\<lparr>ip_startup_ok := False\<rparr>) None (Some 5) run1 = (True, run1)"
proof -
  note first = run_startup
  have ini: "initialized run1" "result run1"
    by (simp_all add: run1_def)
  from ih_startup_idempotent [of run1 "ex_world\<lparr>ip_startup_ok := False\<rparr>" None "Some 5"]
    ih_startup_idempotent [of "init_state ex_heap" ex_world "Some 100" "Some 200" True run1
      "ex_world\<lparr>ip_startup_ok := False\<rparr>" None "Some 5"]
    first ini
  show ?thesis
    by simp
qed

section \<open>Cancellation\<close>

text \<open>
  C2. For a live subscription whose flag is clear, cancel either finds it in
  \<^verbatim>\<open>sub_list\<close> and then sets the flag, removes it from the scanner's tracking, asks
  the Watch Backend to stop watching, and removes it from \<^verbatim>\<open>sub_list\<close>, in this order
  (the trace grows by exactly these four effects), returning \<^verbatim>\<open>TRUE\<close>; or it does not
  find it, and the assertion fails.
\<close>

theorem ih_sub_cancel_live:
  assumes "heap s p = Some sub" and "\<not> cancelled sub"
  shows "ih_sub_cancel s p =
     (if p \<in> set (sub_list s)
      then Inr (True,
             s\<lparr>heap := (heap s)(p \<mapsto> sub\<lparr>cancelled := True\<rparr>),
               missing := missing s - {p},
               watched := watched s - {p},
               sub_list := remove1 p (sub_list s),
               trace := trace s @
                 [Write_cancelled p, Call_im_rm p, Call_ip_stop_watching p,
                  Write_sub_list_remove p]\<rparr>)
      else Inl Assertion_failed)"
  using assms by (rule cancel_result)

theorem ih_sub_cancel_live_witness:
  "heap run2 1 = Some ex_file_sub \<and> \<not> cancelled ex_file_sub \<and> 1 \<in> set (sub_list run2) \<and>
   ih_sub_cancel run2 1 =
     Inr (True,
       run2\<lparr>heap := ex_heap(1 \<mapsto> ex_file_sub\<lparr>cancelled := True\<rparr>), missing := {}, watched := {},
            sub_list := [],
            trace := trace run2 @
              [Write_cancelled 1, Call_im_rm 1, Call_ip_stop_watching 1,
               Write_sub_list_remove 1]\<rparr>) \<and>
   heap run1 1 = Some ex_file_sub \<and> 1 \<notin> set (sub_list run1) \<and>
   ih_sub_cancel run1 1 = Inl Assertion_failed"
proof -
  have a: "heap run2 1 = Some ex_file_sub" "heap run1 1 = Some ex_file_sub"
    by (simp_all add: ex_defs)
  have b: "\<not> cancelled ex_file_sub"
    by (simp add: ex_defs)
  from ih_sub_cancel_live [OF a(1) b] ih_sub_cancel_live [OF a(2) b] a b show ?thesis
    by (simp add: ex_defs)
qed

text \<open>
  C3. For a live subscription whose flag is already set, cancel returns \<^verbatim>\<open>TRUE\<close> and
  the state after it is the state before it: no collaborator is called, \<^verbatim>\<open>sub_list\<close> is
  not touched, nothing is written.
\<close>

theorem ih_sub_cancel_noop:
  assumes "heap s p = Some sub" and "cancelled sub"
  shows "ih_sub_cancel s p = Inr (True, s)"
  using assms by (simp add: ih_sub_cancel_def)

theorem ih_sub_cancel_noop_witness:
  "heap run3 1 = Some (ex_file_sub\<lparr>cancelled := True\<rparr>) \<and>
   cancelled (ex_file_sub\<lparr>cancelled := True\<rparr>) \<and>
   ih_sub_cancel run3 1 = Inr (True, run3)"
proof -
  have a: "heap run3 1 = Some (ex_file_sub\<lparr>cancelled := True\<rparr>)"
    by (simp add: ex_defs)
  have b: "cancelled (ex_file_sub\<lparr>cancelled := True\<rparr>)"
    by simp
  from ih_sub_cancel_noop [OF a b] a b show ?thesis
    by simp
qed

section \<open>Admission\<close>

text \<open>
  C5. Add of a live subscription fails its assertion when the subscription is already
  in \<^verbatim>\<open>sub_list\<close>, and otherwise returns \<^verbatim>\<open>TRUE\<close>. When the Watch Backend's
  start-watching succeeds the backend tracks the subscription, when it declines the
  subscription is handed to the scanner; either way the subscription is put at the front
  of \<^verbatim>\<open>sub_list\<close> and nothing else changes. In a consistent registry a subscription
  whose flag is clear thereby becomes \<open>Watching\<close> or \<open>Missing\<close>.
\<close>

theorem ih_sub_add_admits:
  assumes "heap s p = Some sub"
  shows "ih_sub_add w s p =
     (if p \<in> set (sub_list s) then Inl Assertion_failed
      else Inr (True,
        if can_watch w (dirname sub)
        then s\<lparr>watched := insert p (watched s),
               sub_list := p # sub_list s,
               trace := trace s @ [Call_ip_start_watching p, Write_sub_list_prepend p]\<rparr>
        else s\<lparr>missing := insert p (missing s),
               sub_list := p # sub_list s,
               trace := trace s @
                 [Call_ip_start_watching p, Call_im_add p, Write_sub_list_prepend p]\<rparr>)) \<and>
     (\<forall>s'. reg_inv s \<and> \<not> cancelled sub \<and> ih_sub_add w s p = Inr (True, s') \<longrightarrow>
        sub_state s' p = Some (if can_watch w (dirname sub) then Watching else Missing))"
proof (cases "p \<in> set (sub_list s)")
  case True
  then show ?thesis
    by (simp add: ih_sub_add_def)
next
  case False
  then have "reg_inv s \<Longrightarrow> p \<notin> watched s \<and> p \<notin> missing s"
    by (auto simp: reg_inv_def)
  with False assms show ?thesis
    by (auto simp: add_result sub_state_def)
qed

theorem ih_sub_add_admits_witness:
  "heap run1 1 = Some ex_file_sub \<and>
   ih_sub_add ex_world run1 1 = Inr (True, run2) \<and>
   sub_state run2 1 = Some Watching \<and>
   ih_sub_add ex_world run2 1 = Inl Assertion_failed \<and>
   heap run1 2 = Some ex_dir_sub \<and>
   ih_sub_add ex_world run1 2 =
     Inr (True,
       run1\<lparr>missing := {2}, sub_list := [2],
            trace := trace run1 @
              [Call_ip_start_watching 2, Call_im_add 2, Write_sub_list_prepend 2]\<rparr>)"
proof -
  have a: "heap run1 1 = Some ex_file_sub" "heap run1 2 = Some ex_dir_sub"
    "heap run2 1 = Some ex_file_sub"
    by (simp_all add: ex_defs)
  have c: "reg_inv run1" "\<not> cancelled ex_file_sub"
    by (simp_all add: reg_inv_def ex_defs)
  have d: "ih_sub_add ex_world run1 1 = Inr (True, run2)"
    using ih_sub_add_admits [OF a(1), of ex_world] by (simp add: ex_defs)
  have e: "sub_state run2 1 = Some Watching"
    using ih_sub_add_admits [OF a(1), of ex_world] c d by (simp add: ex_world_def ex_file_sub_def)
  have f: "ih_sub_add ex_world run2 1 = Inl Assertion_failed"
    using ih_sub_add_admits [OF a(3), of ex_world] by (simp add: ex_defs)
  from ih_sub_add_admits [OF a(2), of ex_world] a d e f show ?thesis
    by (simp add: ex_defs)
qed

section \<open>The dispatch adapters\<close>

text \<open>
  C9. With a live subscription and a registered event callback, the event adapter makes
  exactly one call of that callback and does nothing else: for an event with a name the
  path is directory, slash, name; for an event without a name it is directory, slash;
  the mask is the event's and the user data the subscription's.
\<close>

theorem ih_event_callback_forwards:
  assumes "heap s p = Some sub" and "user_ecb s = Some cb"
  shows "(\<forall>n. event_name ev = Some n \<longrightarrow>
            ih_event_callback s ev p =
              Inr (s\<lparr>trace := trace s @
                [Call_user_ecb p cb (dirname sub @ ''/'' @ n) (event_mask ev) (usersubdata sub)]\<rparr>)) \<and>
         (event_name ev = None \<longrightarrow>
            ih_event_callback s ev p =
              Inr (s\<lparr>trace := trace s @
                [Call_user_ecb p cb (dirname sub @ ''/'') (event_mask ev) (usersubdata sub)]\<rparr>))"
  using assms by (simp add: ih_event_callback_def emit_def)

theorem ih_event_callback_forwards_witness:
  "heap run2 1 = Some ex_file_sub \<and> user_ecb run2 = Some 100 \<and>
   ih_event_callback run2 ex_event 1 =
     Inr (run2\<lparr>trace := trace run2 @ [Call_user_ecb 1 100 ''/a/x'' 2 7]\<rparr>) \<and>
   ih_event_callback run2 \<lparr>event_name = None, event_mask = 4\<rparr> 1 =
     Inr (run2\<lparr>trace := trace run2 @ [Call_user_ecb 1 100 ''/a/'' 4 7]\<rparr>)"
proof -
  have a: "heap run2 1 = Some ex_file_sub" and b: "user_ecb run2 = Some 100"
    by (simp_all add: ex_defs)
  from ih_event_callback_forwards [OF a b, of ex_event]
    ih_event_callback_forwards [OF a b, of "\<lparr>event_name = None, event_mask = 4\<rparr>"] a b
  show ?thesis
    by (simp add: ex_event_def ex_file_sub_def)
qed

text \<open>
  C8. With a live subscription and a registered found callback: when the subscription
  has a filename, the found adapter calls the callback with directory, slash, filename
  and the user data if that path exists, and makes no call if it does not; when the
  subscription has no filename it calls the callback with directory, slash, whatever
  exists. Nothing else changes.
\<close>

theorem ih_found_callback_forwards:
  assumes "heap s p = Some sub" and "user_fcb s = Some cb"
  shows "(\<forall>fn. filename sub = Some fn \<longrightarrow>
            ih_found_callback w s p =
              Inr (if file_exists w (dirname sub @ ''/'' @ fn)
                   then s\<lparr>trace := trace s @
                     [Call_user_fcb p cb (dirname sub @ ''/'' @ fn) (usersubdata sub)]\<rparr>
                   else s)) \<and>
         (filename sub = None \<longrightarrow>
            ih_found_callback w s p =
              Inr (s\<lparr>trace := trace s @
                [Call_user_fcb p cb (dirname sub @ ''/'') (usersubdata sub)]\<rparr>))"
  using assms by (simp add: ih_found_callback_def emit_def)

theorem ih_found_callback_forwards_witness:
  "heap run1 1 = Some ex_file_sub \<and> heap run1 2 = Some ex_dir_sub \<and>
   heap run1 3 = Some ex_gone_sub \<and> user_fcb run1 = Some 200 \<and>
   ih_found_callback ex_world run1 1 =
     Inr (run1\<lparr>trace := trace run1 @ [Call_user_fcb 1 200 ''/a/f'' 7]\<rparr>) \<and>
   ih_found_callback ex_world run1 3 = Inr run1 \<and>
   ih_found_callback ex_world run1 2 =
     Inr (run1\<lparr>trace := trace run1 @ [Call_user_fcb 2 200 ''/b/'' 8]\<rparr>)"
proof -
  have a: "heap run1 1 = Some ex_file_sub" "heap run1 2 = Some ex_dir_sub"
    "heap run1 3 = Some ex_gone_sub"
    by (simp_all add: ex_defs)
  have b: "user_fcb run1 = Some 200"
    by (simp add: ex_defs)
  from ih_found_callback_forwards [OF a(1) b, of ex_world]
    ih_found_callback_forwards [OF a(2) b, of ex_world]
    ih_found_callback_forwards [OF a(3) b, of ex_world] a b
  show ?thesis
    by (simp add: ex_world_def ex_file_sub_def ex_dir_sub_def ex_gone_sub_def)
qed

text \<open>
  C10, as amended. When the found adapter suppresses the callback (the subscription has
  a filename and the path built from it does not exist) the state after it is the state
  before it: the subscription's flag, its membership in \<^verbatim>\<open>sub_list\<close> and what either
  collaborator tracks are as they were, and no collaborator was called, so the unit
  neither cancels the subscription nor hands it back to the scanner. Its lifecycle state
  is what it was before the call: a subscription that was watched is still watched.
\<close>

theorem ih_found_callback_suppressed_frame:
  assumes "heap s p = Some sub" and "filename sub = Some fn"
    and "\<not> file_exists w (dirname sub @ ''/'' @ fn)"
  shows "\<exists>s'. ih_found_callback w s p = Inr s' \<and> s' = s \<and>
           heap s' p = Some sub \<and> sub_list s' = sub_list s \<and>
           watched s' = watched s \<and> missing s' = missing s \<and> trace s' = trace s \<and>
           sub_state s' p = sub_state s p"
  using assms by (simp add: ih_found_callback_def)

theorem ih_found_callback_suppressed_frame_witness:
  "heap promoted 3 = Some ex_gone_sub \<and> filename ex_gone_sub = Some ''g'' \<and>
   \<not> file_exists ex_world (dirname ex_gone_sub @ ''/'' @ ''g'') \<and>
   3 \<in> set (sub_list promoted) \<and> 3 \<in> watched promoted \<and>
   ih_found_callback ex_world promoted 3 = Inr promoted"
proof -
  have a: "heap promoted 3 = Some ex_gone_sub"
    by (simp add: ex_defs)
  have b: "filename ex_gone_sub = Some ''g''"
    by (simp add: ex_gone_sub_def)
  have c: "\<not> file_exists ex_world (dirname ex_gone_sub @ ''/'' @ ''g'')"
    by (simp add: ex_world_def ex_gone_sub_def)
  have d: "3 \<in> set (sub_list promoted)" "3 \<in> watched promoted"
    by (simp_all add: ex_defs)
  from ih_found_callback_suppressed_frame [OF a b c] a b c d show ?thesis
    by simp
qed

text \<open>
  C10 as stated ends with "leaves it neither watched nor rescanned", and that fails.
  The run: startup; add of subscription 3 while its directory cannot be watched, so that
  the scanner tracks it; a rescan once the directory can be watched while the file is
  still absent. The scanner promotes the subscription and dispatches; the adapter
  suppresses the callback; afterwards the subscription is watched by the Watch Backend.
\<close>

theorem ih_found_callback_suppressed_counterexample:
  "ih_startup ex_world (Some 100) (Some 200) (init_state ex_heap) = (True, run1) \<and>
   ih_sub_add ex_world_bare run1 3 = Inr (True, parked) \<and>
   sub_state parked 3 = Some Missing \<and>
   im_scan ex_world 3 parked = Inr promoted \<and>
   filename ex_gone_sub = Some ''g'' \<and> \<not> file_exists ex_world ''/a/g'' \<and>
   ih_found_callback ex_world promoted 3 = Inr promoted \<and>
   trace promoted = trace parked @ [Call_ip_start_watching 3] \<and>
   3 \<in> watched promoted \<and> sub_state promoted 3 = Some Watching"
proof -
  have "sub_state parked 3 = Some Missing" "sub_state promoted 3 = Some Watching"
    "3 \<in> watched promoted" "trace promoted = trace parked @ [Call_ip_start_watching 3]"
    "filename ex_gone_sub = Some ''g''" "\<not> file_exists ex_world ''/a/g''"
    by (simp_all add: sub_state_def ex_defs)
  with run_startup run_park run_promote run_found show ?thesis
    by simp
qed

section \<open>Bulk enumeration\<close>

lemma filter_neq_absent: "p \<notin> set xs \<Longrightarrow> filter (\<lambda>q. q \<noteq> p) xs = xs"
  by (induction xs) auto

lemma remove1_filter_distinct: "distinct xs \<Longrightarrow> remove1 p xs = filter (\<lambda>q. q \<noteq> p) xs"
  by (induction xs) (auto simp: filter_neq_absent)

lemma selected_emit [simp]: "selected f cd (emit e s) = selected f cd s"
  by (rule ext) (simp add: selected_def)

lemma cancels_emit [simp]: "cancels f cd (emit e s) = cancels f cd s"
  by (rule ext) (simp add: cancels_def)

lemma visit_effects_emit [simp]: "visit_effects f cd fr (emit e s) = visit_effects f cd fr s"
  by (rule ext) (simp add: visit_effects_def)

lemma foreach_outcome_fields:
  "heap (foreach_outcome f cd fr ps s) =
     (\<lambda>p. if p \<in> set ps \<and> selected f cd s p
          then (if fr then None else map_option (\<lambda>sub. sub\<lparr>cancelled := True\<rparr>) (heap s p))
          else heap s p)"
  "sub_list (foreach_outcome f cd fr ps s) =
     filter (\<lambda>p. \<not> (p \<in> set ps \<and> cancels f cd s p)) (sub_list s)"
  "watched (foreach_outcome f cd fr ps s) = watched s - {p \<in> set ps. cancels f cd s p}"
  "missing (foreach_outcome f cd fr ps s) = missing s - {p \<in> set ps. cancels f cd s p}"
  "trace (foreach_outcome f cd fr ps s) = trace s @ concat (map (visit_effects f cd fr s) ps)"
  "initialized (foreach_outcome f cd fr ps s) = initialized s"
  "result (foreach_outcome f cd fr ps s) = result s"
  "user_ecb (foreach_outcome f cd fr ps s) = user_ecb s"
  "user_fcb (foreach_outcome f cd fr ps s) = user_fcb s"
  "ih_state.more (foreach_outcome f cd fr ps s) = ih_state.more s"
  by (simp_all add: foreach_outcome_def)

lemma foreach_outcome_Nil: "foreach_outcome f cd fr [] s = s"
  by (simp add: foreach_outcome_def)

text \<open>One round of the loop body, as a function of the state.\<close>

lemma foreach_round:
  assumes "heap s p = Some sub" and "p \<in> set (sub_list s) \<or> cancelled sub \<or> \<not> f p sub cd"
  shows "\<exists>s3. foreach_loop f cd fr (p # ps) s = foreach_loop f cd fr ps s3 \<and>
     heap s3 = (if f p sub cd
                then (heap s)(p := if fr then None else Some (sub\<lparr>cancelled := True\<rparr>))
                else heap s) \<and>
     sub_list s3 = (if f p sub cd \<and> \<not> cancelled sub then remove1 p (sub_list s) else sub_list s) \<and>
     watched s3 = (if f p sub cd \<and> \<not> cancelled sub then watched s - {p} else watched s) \<and>
     missing s3 = (if f p sub cd \<and> \<not> cancelled sub then missing s - {p} else missing s) \<and>
     trace s3 = trace s @ visit_effects f cd fr s p \<and>
     initialized s3 = initialized s \<and> result s3 = result s \<and>
     user_ecb s3 = user_ecb s \<and> user_fcb s3 = user_fcb s \<and>
     ih_state.more s3 = ih_state.more s"
proof (cases "f p sub cd")
  case False
  with assms(1) show ?thesis
    by (intro exI [of _ "emit (Call_f p) s"]) (simp add: visit_effects_def selected_def)
next
  case sel: True
  show ?thesis
  proof (cases "cancelled sub")
    case True
    with sel assms(1) show ?thesis
      by (intro exI [of _ "if fr then ih_sub_free p (emit (Call_f p) s) else emit (Call_f p) s"])
        (auto simp: visit_effects_def selected_def cancels_def ih_sub_cancel_def ih_sub_free_def)
  next
    case False
    with assms(2) sel have "p \<in> set (sub_list s)"
      by simp
    with sel False assms(1) show ?thesis
      by (intro exI [of _ "let s2 = sub_list_remove p (ip_stop_watching p (im_rm p
            (write_cancelled p sub (emit (Call_f p) s)))) in if fr then ih_sub_free p s2 else s2"])
        (auto simp: visit_effects_def selected_def cancels_def ih_sub_cancel_def ih_sub_free_def
           write_cancelled_def im_rm_def ip_stop_watching_def sub_list_remove_def Let_def)
  qed
qed

lemma foreach_outcome_round:
  assumes sub: "heap s p = Some sub" and fresh: "p \<notin> set ps" and dist: "distinct (sub_list s)"
    and h3: "heap s3 = (if f p sub cd
                then (heap s)(p := if fr then None else Some (sub\<lparr>cancelled := True\<rparr>))
                else heap s)"
    and l3: "sub_list s3 = (if f p sub cd \<and> \<not> cancelled sub then remove1 p (sub_list s) else sub_list s)"
    and w3: "watched s3 = (if f p sub cd \<and> \<not> cancelled sub then watched s - {p} else watched s)"
    and m3: "missing s3 = (if f p sub cd \<and> \<not> cancelled sub then missing s - {p} else missing s)"
    and t3: "trace s3 = trace s @ visit_effects f cd fr s p"
    and rest: "initialized s3 = initialized s" "result s3 = result s"
      "user_ecb s3 = user_ecb s" "user_fcb s3 = user_fcb s" "ih_state.more s3 = ih_state.more s"
  shows "foreach_outcome f cd fr ps s3 = foreach_outcome f cd fr (p # ps) s"
proof -
  have same: "heap s3 q = heap s q" if "q \<in> set ps" for q
    using that fresh by (auto simp: h3)
  have sel: "selected f cd s3 q = selected f cd s q" if "q \<in> set ps" for q
    using same [OF that] by (simp add: selected_def)
  have can: "cancels f cd s3 q = cancels f cd s q" if "q \<in> set ps" for q
    using same [OF that] by (simp add: cancels_def)
  have ve: "map (visit_effects f cd fr s3) ps = map (visit_effects f cd fr s) ps"
    by (rule map_cong) (simp_all add: visit_effects_def sel can)
  have selp: "selected f cd s p = f p sub cd" and canp: "cancels f cd s p = (f p sub cd \<and> \<not> cancelled sub)"
    using sub by (simp_all add: selected_def cancels_def)
  show ?thesis
  proof (rule ih_state.equality)
    show "heap (foreach_outcome f cd fr ps s3) = heap (foreach_outcome f cd fr (p # ps) s)"
    proof (rule ext)
      fix q
      show "heap (foreach_outcome f cd fr ps s3) q = heap (foreach_outcome f cd fr (p # ps) s) q"
      proof (cases "q \<in> set ps")
        case True
        then have "q \<noteq> p" using fresh by blast
        with True show ?thesis
          by (simp add: foreach_outcome_fields sel same)
      next
        case False
        then show ?thesis
          using sub selp by (auto simp: foreach_outcome_fields h3)
      qed
    qed
    show "sub_list (foreach_outcome f cd fr ps s3) = sub_list (foreach_outcome f cd fr (p # ps) s)"
    proof (cases "f p sub cd \<and> \<not> cancelled sub")
      case True
      then have "sub_list s3 = filter (\<lambda>q. q \<noteq> p) (sub_list s)"
        using dist by (simp add: l3 remove1_filter_distinct)
      then show ?thesis
        using True fresh by (auto simp: foreach_outcome_fields canp can intro!: filter_cong)
    next
      case False
      then have "sub_list s3 = sub_list s"
        by (auto simp: l3)
      then show ?thesis
        using False fresh by (auto simp: foreach_outcome_fields canp can intro!: filter_cong)
    qed
    show "watched (foreach_outcome f cd fr ps s3) = watched (foreach_outcome f cd fr (p # ps) s)"
      using fresh by (auto simp: foreach_outcome_fields w3 canp can)
    show "missing (foreach_outcome f cd fr ps s3) = missing (foreach_outcome f cd fr (p # ps) s)"
      using fresh by (auto simp: foreach_outcome_fields m3 canp can)
    show "trace (foreach_outcome f cd fr ps s3) = trace (foreach_outcome f cd fr (p # ps) s)"
      by (simp add: foreach_outcome_fields t3 ve)
  qed (simp_all add: foreach_outcome_fields rest)
qed

lemma foreach_loop_outcome:
  assumes "distinct ps" and "distinct (sub_list s)" and "set ps \<subseteq> set (sub_list s)"
    and "\<forall>p\<in>set ps. heap s p \<noteq> None"
  shows "foreach_loop f cd fr ps s = Inr (foreach_outcome f cd fr ps s)"
  using assms
proof (induction ps arbitrary: s)
  case Nil
  show ?case by (simp add: foreach_outcome_Nil)
next
  case (Cons p ps)
  from Cons.prems obtain sub where sub: "heap s p = Some sub"
    by auto
  from Cons.prems have p: "p \<notin> set ps" "distinct ps" "p \<in> set (sub_list s)"
    by auto
  from foreach_round [OF sub, of f cd fr ps] p(3)
  obtain s3 where loop: "foreach_loop f cd fr (p # ps) s = foreach_loop f cd fr ps s3"
    and h3: "heap s3 = (if f p sub cd
                then (heap s)(p := if fr then None else Some (sub\<lparr>cancelled := True\<rparr>))
                else heap s)"
    and l3: "sub_list s3 = (if f p sub cd \<and> \<not> cancelled sub then remove1 p (sub_list s) else sub_list s)"
    and w3: "watched s3 = (if f p sub cd \<and> \<not> cancelled sub then watched s - {p} else watched s)"
    and m3: "missing s3 = (if f p sub cd \<and> \<not> cancelled sub then missing s - {p} else missing s)"
    and t3: "trace s3 = trace s @ visit_effects f cd fr s p"
    and rest: "initialized s3 = initialized s" "result s3 = result s"
      "user_ecb s3 = user_ecb s" "user_fcb s3 = user_fcb s" "ih_state.more s3 = ih_state.more s"
    by blast
  have "foreach_loop f cd fr ps s3 = Inr (foreach_outcome f cd fr ps s3)"
  proof (rule Cons.IH)
    show "distinct ps" by fact
    show "distinct (sub_list s3)" using Cons.prems(2) by (simp add: l3)
    show "set ps \<subseteq> set (sub_list s3)" using Cons.prems(2,3) p(1) by (auto simp: l3)
    show "\<forall>q\<in>set ps. heap s3 q \<noteq> None" using Cons.prems(4) p(1) by (auto simp: h3)
  qed
  also have "foreach_outcome f cd fr ps s3 = foreach_outcome f cd fr (p # ps) s"
    using sub p(1) Cons.prems(2) h3 l3 w3 m3 t3 rest by (rule foreach_outcome_round)
  finally show ?case using loop by simp
qed

lemma worker_outcome:
  "live_list s \<Longrightarrow> ih_sub_foreach_worker cd f fr s = Inr (foreach_outcome f cd fr (sub_list s) s)"
  unfolding ih_sub_foreach_worker_def live_list_def
  by (intro foreach_loop_outcome) auto

lemma reg_inv_live_list: "reg_inv s \<Longrightarrow> live_list s"
  by (auto simp: reg_inv_def live_list_def sub_state_def split: option.splits)

lemma count_list_visits:
  "count_list (concat (map (visit_effects f cd fr s) ps)) (Call_f p) = count_list ps p"
  by (induction ps) (simp_all add: visit_effects_def)

lemma count_list_distinct: "distinct ps \<Longrightarrow> count_list ps p = (if p \<in> set ps then 1 else 0)"
  by (induction ps) auto

text \<open>
  C4. On a \<^verbatim>\<open>sub_list\<close> without duplicates whose pointers are all live, the worker
  behind \<^verbatim>\<open>ih_sub_foreach\<close> (\<open>fr = False\<close>) and \<^verbatim>\<open>ih_sub_foreach_free\<close> (\<open>fr = True\<close>)
  returns, and it calls the predicate exactly once for every subscription that was in
  \<^verbatim>\<open>sub_list\<close> at entry and for no other, also when the predicate's answer removes the
  subscription under the traversal. The trace grows by the rounds in list order: in each
  round the call of the predicate, then for a true answer the cancellation at once, and
  with \<open>fr\<close> the release right after it. Afterwards a selected subscription has its
  flag set or, with \<open>fr\<close>, is released, and if its flag was clear at entry (as it is
  for every member of a consistent registry) it is out of \<^verbatim>\<open>sub_list\<close> and of both
  collaborators; a subscription for which the predicate answered false is untouched.
\<close>

theorem ih_sub_foreach_worker_visits:
  assumes "live_list s"
  shows "\<exists>s'. ih_sub_foreach_worker cd f fr s = Inr s' \<and>
     ih_sub_foreach cd f s = ih_sub_foreach_worker cd f False s \<and>
     ih_sub_foreach_free cd f s = ih_sub_foreach_worker cd f True s \<and>
     trace s' = trace s @ concat (map (visit_effects f cd fr s) (sub_list s)) \<and>
     (\<forall>p. count_list (drop (length (trace s)) (trace s')) (Call_f p) =
            (if p \<in> set (sub_list s) then 1 else 0)) \<and>
     sub_list s' = filter (\<lambda>p. \<not> cancels f cd s p) (sub_list s) \<and>
     (\<forall>p. heap s' p =
            (if p \<in> set (sub_list s) \<and> selected f cd s p
             then (if fr then None else map_option (\<lambda>sub. sub\<lparr>cancelled := True\<rparr>) (heap s p))
             else heap s p)) \<and>
     watched s' = watched s - {p \<in> set (sub_list s). cancels f cd s p} \<and>
     missing s' = missing s - {p \<in> set (sub_list s). cancels f cd s p}"
proof -
  let ?s' = "foreach_outcome f cd fr (sub_list s) s"
  have run: "ih_sub_foreach_worker cd f fr s = Inr ?s'"
    using assms by (rule worker_outcome)
  have dist: "distinct (sub_list s)"
    using assms by (simp add: live_list_def)
  have tr: "trace ?s' = trace s @ concat (map (visit_effects f cd fr s) (sub_list s))"
    by (simp add: foreach_outcome_fields)
  have cnt: "\<forall>p. count_list (drop (length (trace s)) (trace ?s')) (Call_f p) =
            (if p \<in> set (sub_list s) then 1 else 0)"
    using dist by (simp add: tr count_list_visits count_list_distinct)
  have lst: "sub_list ?s' = filter (\<lambda>p. \<not> cancels f cd s p) (sub_list s)"
    by (auto simp: foreach_outcome_fields intro!: filter_cong)
  from run tr cnt lst show ?thesis
    by (intro exI [of _ ?s'])
      (simp add: ih_sub_foreach_def ih_sub_foreach_free_def foreach_outcome_fields(1,3,4))
qed

theorem ih_sub_foreach_worker_visits_witness:
  "live_list both \<and>
   (\<exists>s'. ih_sub_foreach_free 7 by_user_data both = Inr s' \<and>
      trace s' = trace both @
        [Call_f 2, Call_f 1, Write_cancelled 1, Call_im_rm 1, Call_ip_stop_watching 1,
         Write_sub_list_remove 1, Call_ih_sub_free 1] \<and>
      sub_list s' = [2] \<and> heap s' 1 = None \<and> heap s' 2 = Some ex_dir_sub \<and>
      watched s' = {} \<and> missing s' = {2})"
proof -
  have live: "live_list both"
    by (simp add: live_list_def ex_defs)
  have sel: "selected by_user_data 7 both 1" "\<not> selected by_user_data 7 both 2"
    "cancels by_user_data 7 both 1" "\<not> cancels by_user_data 7 both 2"
    by (simp_all add: selected_def cancels_def ex_defs)
  have fields: "sub_list both = [2, 1]" "heap both 1 = Some ex_file_sub" "heap both 2 = Some ex_dir_sub"
    "watched both = {1}" "missing both = {2}"
    by (simp_all add: ex_defs)
  from ih_sub_foreach_worker_visits [OF live, of 7 by_user_data True]
  obtain s' where "ih_sub_foreach_free 7 by_user_data both = Inr s'"
    and "trace s' = trace both @ concat (map (visit_effects by_user_data 7 True both) (sub_list both))"
    and "sub_list s' = filter (\<lambda>p. \<not> cancels by_user_data 7 both p) (sub_list both)"
    and "\<forall>p. heap s' p = (if p \<in> set (sub_list both) \<and> selected by_user_data 7 both p
             then None else heap both p)"
    and "watched s' = watched both - {p \<in> set (sub_list both). cancels by_user_data 7 both p}"
    and "missing s' = missing both - {p \<in> set (sub_list both). cancels by_user_data 7 both p}"
    by auto
  with live sel fields show ?thesis
    by (auto simp: visit_effects_def)
qed

section \<open>The registry invariant\<close>

lemma tracked_iff:
  "sub_state s p = Some Watching \<or> sub_state s p = Some Missing \<longleftrightarrow>
   (\<exists>sub. heap s p = Some sub \<and> \<not> cancelled sub) \<and> (p \<in> watched s \<or> p \<in> missing s)"
  by (cases "heap s p") (auto simp: sub_state_def)

lemma reg_inv_alt:
  "reg_inv s \<longleftrightarrow>
     distinct (sub_list s) \<and>
     (\<forall>p\<in>set (sub_list s).
        (\<exists>sub. heap s p = Some sub \<and> \<not> cancelled sub) \<and> (p \<in> watched s \<or> p \<in> missing s)) \<and>
     watched s \<union> missing s \<subseteq> set (sub_list s)"
  unfolding reg_inv_def tracked_iff ..


lemma reg_inv_init: "reg_inv (init_state h)"
  by (simp add: reg_inv_def init_state_def)

lemma reg_inv_cong:
  "heap s' = heap s \<Longrightarrow> watched s' = watched s \<Longrightarrow> missing s' = missing s \<Longrightarrow>
   sub_list s' = sub_list s \<Longrightarrow> reg_inv s' = reg_inv s"
  by (simp add: reg_inv_alt)

lemma reg_inv_startup: "reg_inv s \<Longrightarrow> ih_startup w ecb fcb s = (b, s') \<Longrightarrow> reg_inv s'"
  by (subst reg_inv_cong [of s' s]) (auto simp: ih_startup_def Let_def emit_def split: if_splits)

lemma reg_inv_add:
  assumes "reg_inv s" and "sub_state s p \<noteq> Some Cancelled" and "ih_sub_add w s p = Inr (b, s')"
  shows "reg_inv s'"
proof -
  from add_live [OF assms(3)] obtain sub where notin: "p \<notin> set (sub_list s)" and sub: "heap s p = Some sub"
    by blast
  with assms(2) have nc: "\<not> cancelled sub"
    by (auto simp: sub_state_def split: if_splits)
  from assms(1) notin have untracked: "p \<notin> watched s" "p \<notin> missing s"
    by (auto simp: reg_inv_alt)
  from assms(3) have s': "s' = snd (projr (ih_sub_add w s p))"
    by simp
  have
    "heap s' = heap s" "sub_list s' = p # sub_list s"
    "watched s' = (if can_watch w (dirname sub) then insert p (watched s) else watched s)"
    "missing s' = (if can_watch w (dirname sub) then missing s else insert p (missing s))"
    unfolding s' add_result [OF sub notin] by simp_all
  with assms(1) sub nc notin untracked show ?thesis
    by (auto simp: reg_inv_alt)
qed


lemma reg_inv_cancels:
  "reg_inv s \<Longrightarrow> p \<in> set (sub_list s) \<Longrightarrow> cancels f cd s p = selected f cd s p"
  by (auto simp: reg_inv_alt cancels_def selected_def)

lemma reg_inv_outcome:
  assumes "reg_inv s"
  shows "reg_inv (foreach_outcome f cd fr (sub_list s) s)"
proof -
  let ?s' = "foreach_outcome f cd fr (sub_list s) s"
  have keep: "sub_state ?s' p = sub_state s p" if "p \<in> set (sub_list s)" "\<not> selected f cd s p" for p
    using that reg_inv_cancels [OF assms that(1), of f cd]
    by (simp add: sub_state_def foreach_outcome_fields)
  have "distinct (sub_list ?s')"
    using assms by (simp add: reg_inv_def foreach_outcome_fields)
  moreover have "\<forall>p\<in>set (sub_list ?s'). sub_state ?s' p = Some Watching \<or> sub_state ?s' p = Some Missing"
  proof
    fix p assume "p \<in> set (sub_list ?s')"
    then have "p \<in> set (sub_list s)" "\<not> cancels f cd s p"
      by (auto simp: foreach_outcome_fields)
    with reg_inv_cancels [OF assms this(1), of f cd] keep [of p] assms
    show "sub_state ?s' p = Some Watching \<or> sub_state ?s' p = Some Missing"
      by (auto simp: reg_inv_def)
  qed
  moreover have "watched ?s' \<union> missing ?s' \<subseteq> set (sub_list ?s')"
    using assms by (auto simp: reg_inv_def foreach_outcome_fields)
  ultimately show ?thesis
    by (simp add: reg_inv_def)
qed

lemma reg_inv_worker:
  assumes "reg_inv s" and "ih_sub_foreach_worker cd f fr s = Inr s'"
  shows "reg_inv s'"
  using assms worker_outcome [OF reg_inv_live_list [OF assms(1)], of cd f fr] reg_inv_outcome [OF assms(1), of f cd fr]
  by simp

lemma reg_inv_run1: "reg_inv run1"
  by (simp add: reg_inv_alt ex_defs)

lemma reg_inv_run2: "reg_inv run2"
  by (simp add: reg_inv_alt ex_defs)

lemma reg_inv_run3: "reg_inv run3"
  by (simp add: reg_inv_alt ex_defs)




section \<open>No user callback after cancellation\<close>

lemma ncac_append:
  "no_callback_after_cancel (l @ l') \<longleftrightarrow>
     no_callback_after_cancel l \<and> no_callback_after_cancel l' \<and>
     (\<forall>p. Write_cancelled p \<in> set l \<longrightarrow> \<not> list_ex (user_cb_for p) l')"
  by (induction l rule: no_callback_after_cancel.induct) auto

lemma ncac_quiet: "\<forall>e\<in>set l. \<forall>p. \<not> user_cb_for p e \<Longrightarrow> no_callback_after_cancel l"
  by (induction l rule: no_callback_after_cancel.induct) (auto simp: list_ex_iff)

lemma cb_inv_extend:
  assumes "cb_inv s" and "reg_inv s'" and "trace s' = trace s @ l"
    and "\<forall>p. list_ex (user_cb_for p) l \<longrightarrow> \<not> gone s p"
    and "no_callback_after_cancel l"
    and "\<forall>p. Write_cancelled p \<in> set l \<longrightarrow> gone s' p"
    and "\<forall>p. gone s p \<longrightarrow> gone s' p"
  shows "cb_inv s'"
  using assms by (auto simp: cb_inv_def ncac_append)

lemma cb_inv_init: "cb_inv (init_state h)"
  by (simp add: cb_inv_def reg_inv_init) (simp add: init_state_def)

lemma gone_cong: "heap s' = heap s \<Longrightarrow> gone s' = gone s"
  by (rule ext) (simp add: gone_def)

lemma found_shape:
  assumes "ih_found_callback w s p = Inr s'"
  shows "\<exists>l. trace s' = trace s @ l \<and> (l = [] \<or> (\<exists>cb path d. l = [Call_user_fcb p cb path d])) \<and>
     heap s' = heap s \<and> sub_list s' = sub_list s \<and> watched s' = watched s \<and> missing s' = missing s"
proof -
  from assms obtain sub where sub: "heap s p = Some sub"
    by (auto simp: ih_found_callback_def split: option.splits)
  show ?thesis
  proof (cases "s' = s")
    case True
    then show ?thesis by (intro exI [of _ "[]"]) simp
  next
    case False
    with assms sub have "\<exists>cb path. s' = emit (Call_user_fcb p cb path (usersubdata sub)) s"
      by (auto simp: ih_found_callback_def Let_def split: option.splits if_splits)
    then obtain cb path where "s' = emit (Call_user_fcb p cb path (usersubdata sub)) s"
      by blast
    then show ?thesis
      by (intro exI [of _ "[Call_user_fcb p cb path (usersubdata sub)]"]) simp
  qed
qed

lemma event_shape:
  assumes "ih_event_callback s ev p = Inr s'"
  shows "\<exists>cb path m d. trace s' = trace s @ [Call_user_ecb p cb path m d] \<and>
     heap s' = heap s \<and> sub_list s' = sub_list s \<and> watched s' = watched s \<and> missing s' = missing s"
proof -
  from assms obtain sub where sub: "heap s p = Some sub"
    by (auto simp: ih_event_callback_def split: option.splits)
  with assms obtain cb where cb: "user_ecb s = Some cb"
    by (auto simp: ih_event_callback_def Let_def split: option.splits)
  from assms event_result [OF sub cb, of ev] show ?thesis
    by auto
qed

lemma startup_shape:
  assumes "ih_startup w ecb fcb s = (b, s')"
  shows "\<exists>l. trace s' = trace s @ l \<and> (\<forall>e\<in>set l. \<forall>p. \<not> user_cb_for p e \<and> e \<noteq> Write_cancelled p) \<and>
     heap s' = heap s"
proof (cases "initialized s")
  case True
  with assms have "s' = s" by (simp add: ih_startup_def)
  then show ?thesis by (intro exI [of _ "[]"]) simp
next
  case False
  show ?thesis
  proof (cases "ip_startup_ok w")
    case True
    with False assms show ?thesis
      by (intro exI [of _ "[Call_ip_startup, Call_im_startup, Call_id_startup]"])
        (auto simp: ih_startup_def emit_def Let_def)
  next
    case no: False
    with False assms show ?thesis
      by (intro exI [of _ "[Call_ip_startup, Call_g_warning]"])
        (auto simp: ih_startup_def emit_def Let_def)
  qed
qed

lemma reg_inv_tracked:
  assumes "reg_inv s" and "p \<in> watched s \<or> p \<in> missing s"
  shows "p \<in> set (sub_list s) \<and> (\<exists>sub. heap s p = Some sub \<and> \<not> cancelled sub)"
proof -
  from assms have "p \<in> set (sub_list s)"
    unfolding reg_inv_alt by blast
  with assms(1) show ?thesis
    unfolding reg_inv_alt by blast
qed

lemma reg_inv_not_gone:
  "reg_inv s \<Longrightarrow> p \<in> watched s \<or> p \<in> missing s \<Longrightarrow> \<not> gone s p"
  by (drule (1) reg_inv_tracked) (auto simp: gone_def)

lemma cb_inv_startup:
  assumes "cb_inv s" and "ih_startup w ecb fcb s = (b, s')"
  shows "cb_inv s'"
proof -
  from startup_shape [OF assms(2)] obtain l where
    l: "trace s' = trace s @ l" "\<forall>e\<in>set l. \<forall>p. \<not> user_cb_for p e \<and> e \<noteq> Write_cancelled p"
    and h: "heap s' = heap s"
    by blast
  from assms have "reg_inv s'"
    by (auto simp: cb_inv_def intro: reg_inv_startup)
  with assms(1) show ?thesis
  proof (rule cb_inv_extend [OF _ _ l(1)])
    show "\<forall>p. list_ex (user_cb_for p) l \<longrightarrow> \<not> gone s p" using l(2) by (auto simp: list_ex_iff)
    show "no_callback_after_cancel l" using l(2) by (intro ncac_quiet) auto
    show "\<forall>p. Write_cancelled p \<in> set l \<longrightarrow> gone s' p" using l(2) by auto
    show "\<forall>p. gone s p \<longrightarrow> gone s' p" by (simp add: gone_cong [OF h])
  qed
qed

lemma cb_inv_add:
  assumes "cb_inv s" and "sub_state s p \<noteq> Some Cancelled" and "ih_sub_add w s p = Inr (b, s')"
  shows "cb_inv s'"
proof -
  from add_live [OF assms(3)] obtain sub where notin: "p \<notin> set (sub_list s)" and sub: "heap s p = Some sub"
    by blast
  from assms(3) have s': "s' = snd (projr (ih_sub_add w s p))"
    by simp
  define l where "l = Call_ip_start_watching p #
    (if can_watch w (dirname sub) then [] else [Call_im_add p]) @ [Write_sub_list_prepend p]"
  have tr: "trace s' = trace s @ l" and h: "heap s' = heap s"
    unfolding s' add_result [OF sub notin] l_def by simp_all
  from assms have "reg_inv s'"
    by (auto simp: cb_inv_def intro: reg_inv_add)
  with assms(1) show ?thesis
  proof (rule cb_inv_extend [OF _ _ tr])
    show "\<forall>p. list_ex (user_cb_for p) l \<longrightarrow> \<not> gone s p" by (simp add: l_def)
    show "no_callback_after_cancel l" by (simp add: l_def)
    show "\<forall>p. Write_cancelled p \<in> set l \<longrightarrow> gone s' p" by (simp add: l_def)
    show "\<forall>p. gone s p \<longrightarrow> gone s' p" by (simp add: gone_cong [OF h])
  qed
qed

lemma visit_effects_quiet: "e \<in> set (visit_effects f cd fr s p) \<Longrightarrow> \<not> user_cb_for q e"
  by (auto simp: visit_effects_def split: if_splits)

lemma visit_effects_cancelled:
  "Write_cancelled q \<in> set (visit_effects f cd fr s p) \<Longrightarrow> q = p \<and> selected f cd s p"
  by (auto simp: visit_effects_def split: if_splits)

lemma cb_inv_worker:
  assumes "cb_inv s" and "ih_sub_foreach_worker cd f fr s = Inr s'"
  shows "cb_inv s'"
proof -
  from assms(1) have reg: "reg_inv s"
    by (simp add: cb_inv_def)
  let ?l = "concat (map (visit_effects f cd fr s) (sub_list s))"
  from assms(2) worker_outcome [OF reg_inv_live_list [OF reg], of cd f fr]
  have s': "s' = foreach_outcome f cd fr (sub_list s) s"
    by simp
  have tr: "trace s' = trace s @ ?l"
    by (simp add: s' foreach_outcome_fields)
  have quiet: "\<forall>e\<in>set ?l. \<forall>q. \<not> user_cb_for q e"
    by (auto dest: visit_effects_quiet)
  from reg assms(2) have "reg_inv s'"
    by (rule reg_inv_worker)
  with assms(1) show ?thesis
  proof (rule cb_inv_extend [OF _ _ tr])
    show "\<forall>p. list_ex (user_cb_for p) ?l \<longrightarrow> \<not> gone s p"
      using quiet by (auto simp: list_ex_iff)
    show "no_callback_after_cancel ?l"
      using quiet by (rule ncac_quiet)
    show "\<forall>p. Write_cancelled p \<in> set ?l \<longrightarrow> gone s' p"
      by (auto simp: s' gone_def foreach_outcome_fields dest!: visit_effects_cancelled split: option.splits)
    show "\<forall>p. gone s p \<longrightarrow> gone s' p"
      by (auto simp: s' gone_def foreach_outcome_fields split: option.splits)
  qed
qed

lemma cb_inv_event:
  assumes "cb_inv s" and "p \<in> watched s" and "ih_event_callback s ev p = Inr s'"
  shows "cb_inv s'"
proof -
  from event_shape [OF assms(3)] obtain cb path m d where
    tr: "trace s' = trace s @ [Call_user_ecb p cb path m d]"
    and same: "heap s' = heap s" "sub_list s' = sub_list s" "watched s' = watched s" "missing s' = missing s"
    by blast
  from assms(1) have reg: "reg_inv s"
    by (simp add: cb_inv_def)
  then have "reg_inv s'"
    by (simp add: reg_inv_cong [OF same(1,3,4,2)])
  with assms(1) show ?thesis
  proof (rule cb_inv_extend [OF _ _ tr])
    show "\<forall>q. list_ex (user_cb_for q) [Call_user_ecb p cb path m d] \<longrightarrow> \<not> gone s q"
      using reg_inv_not_gone [OF reg, of p] assms(2) by simp
    show "no_callback_after_cancel [Call_user_ecb p cb path m d]" by simp
    show "\<forall>q. Write_cancelled q \<in> set [Call_user_ecb p cb path m d] \<longrightarrow> gone s' q" by simp
    show "\<forall>q. gone s q \<longrightarrow> gone s' q" by (simp add: gone_cong [OF same(1)])
  qed
qed

lemma cb_inv_scan:
  assumes "cb_inv s" and "p \<in> missing s" and "im_scan w p s = Inr s'"
  shows "cb_inv s'"
proof -
  from assms(1) have reg: "reg_inv s"
    by (simp add: cb_inv_def)
  with assms(2) obtain sub where sub: "heap s p = Some sub" "\<not> cancelled sub" and inl: "p \<in> set (sub_list s)"
    using reg_inv_tracked [of s p] by blast
  show ?thesis
  proof (cases "can_watch w (dirname sub)")
    case False
    with assms(3) sub have s': "s' = emit (Call_ip_start_watching p) s"
      by (simp add: im_scan_def ip_start_watching_def)
    have tr: "trace s' = trace s @ [Call_ip_start_watching p]"
      by (simp add: s')
    have "reg_inv s'"
      using reg by (simp add: reg_inv_alt s')
    with assms(1) show ?thesis
      by (rule cb_inv_extend [OF _ _ tr]) (simp_all add: s' gone_def)
  next
    case True
    define s1 where "s1 = (emit (Call_ip_start_watching p) s)\<lparr>watched := insert p (watched s), missing := missing s - {p}\<rparr>"
    from True assms(3) sub have found: "ih_found_callback w s1 p = Inr s'"
      by (simp add: im_scan_def ip_start_watching_def s1_def)
    from found_shape [OF found] obtain l where
      l: "trace s' = trace s1 @ l" "l = [] \<or> (\<exists>cb path d. l = [Call_user_fcb p cb path d])"
      and same: "heap s' = heap s1" "sub_list s' = sub_list s1" "watched s' = watched s1" "missing s' = missing s1"
      by blast
    have f1: "heap s1 = heap s" "sub_list s1 = sub_list s" "watched s1 = insert p (watched s)"
      "missing s1 = missing s - {p}" "trace s1 = trace s @ [Call_ip_start_watching p]"
      by (simp_all add: s1_def)
    have tr: "trace s' = trace s @ (Call_ip_start_watching p # l)"
      by (simp add: l(1) f1)
    have "reg_inv s'"
      using reg sub inl by (auto simp: reg_inv_alt same f1)
    with assms(1) show ?thesis
    proof (rule cb_inv_extend [OF _ _ tr])
      show "\<forall>q. list_ex (user_cb_for q) (Call_ip_start_watching p # l) \<longrightarrow> \<not> gone s q"
        using l(2) reg_inv_not_gone [OF reg, of p] assms(2) by auto
      show "no_callback_after_cancel (Call_ip_start_watching p # l)" using l(2) by auto
      show "\<forall>q. Write_cancelled q \<in> set (Call_ip_start_watching p # l) \<longrightarrow> gone s' q" using l(2) by auto
      show "\<forall>q. gone s q \<longrightarrow> gone s' q" by (simp add: gone_def same f1)
    qed
  qed
qed

lemma cb_inv_step:
  assumes "step s s'" and "cb_inv s"
  shows "cb_inv s'"
  using assms
proof (cases rule: step.cases)
  case (startup w ecb fcb b)
  with assms(2) show ?thesis by (auto intro: cb_inv_startup)
next
  case (add p w b)
  with assms(2) show ?thesis by (auto intro: cb_inv_add)
next
  case (foreach callerdata f)
  with assms(2) show ?thesis by (auto simp: ih_sub_foreach_def intro: cb_inv_worker)
next
  case (foreach_free callerdata f)
  with assms(2) show ?thesis by (auto simp: ih_sub_foreach_free_def intro: cb_inv_worker)
next
  case (event p ev)
  with assms(2) show ?thesis by (auto intro: cb_inv_event)
next
  case (scan p w)
  with assms(2) show ?thesis by (auto intro: cb_inv_scan)
qed

lemma cb_inv_reach: "step\<^sup>*\<^sup>* (init_state h) s \<Longrightarrow> cb_inv s"
  by (induction rule: rtranclp_induct) (auto intro: cb_inv_init cb_inv_step)

text \<open>
  C7. In every run of the system from the initial state, over every sequence of
  registry and collaborator steps, no user callback is made for a subscription after its
  cancellation: in the trace of every reachable state no \<open>Write_cancelled p\<close> is
  followed by a call of the user's event or found callback for \<open>p\<close>.
\<close>

theorem no_user_callback_after_cancel:
  assumes "step\<^sup>*\<^sup>* (init_state h) s"
  shows "no_callback_after_cancel (trace s)"
  using cb_inv_reach [OF assms] by (simp add: cb_inv_def)

theorem no_user_callback_after_cancel_witness:
  "step\<^sup>*\<^sup>* (init_state ex_heap) seen_done \<and>
   trace seen_done =
     [Call_ip_startup, Call_im_startup, Call_id_startup, Call_ip_start_watching 1,
      Write_sub_list_prepend 1, Call_user_ecb 1 100 ''/a/x'' 2 7, Call_f 1, Write_cancelled 1,
      Call_im_rm 1, Call_ip_stop_watching 1, Write_sub_list_remove 1] \<and>
   no_callback_after_cancel (trace seen_done)"
proof -
  have "step (init_state ex_heap) run1"
    using run_startup by (rule step.startup)
  moreover have "step run1 run2"
    by (rule step.add [OF _ run_add]) (simp add: sub_state_def ex_defs)
  moreover have "step run2 seen"
    by (rule step.event [OF _ run_seen]) (simp add: ex_defs)
  moreover have "step seen seen_done"
    using run_seen_done by (rule step.foreach)
  ultimately have reach: "step\<^sup>*\<^sup>* (init_state ex_heap) seen_done"
    by (meson rtranclp.rtrancl_into_rtrancl rtranclp.rtrancl_refl)
  have "trace seen_done =
     [Call_ip_startup, Call_im_startup, Call_id_startup, Call_ip_start_watching 1,
      Write_sub_list_prepend 1, Call_user_ecb 1 100 ''/a/x'' 2 7, Call_f 1, Write_cancelled 1,
      Call_im_rm 1, Call_ip_stop_watching 1, Write_sub_list_remove 1]"
    by (simp add: ex_defs)
  with reach no_user_callback_after_cancel [OF reach] show ?thesis
    by simp
qed

end
